theory Spec2Isabelle
  imports Main
begin

section \<open>STLSubSets.cpp: the powerset of a sequence through an insert iterator\<close>

subsection \<open>Memory, iterators and undefined behaviour\<close>

text \<open>
  The two containers of \<^verbatim>\<open>_tmain\<close> that a call of \<^verbatim>\<open>subsets\<close> touches:
  \<^verbatim>\<open>inputToGetSubsets\<close>, the vector the remainder iterators point into, and
  \<^verbatim>\<open>result\<close>, the vector of vectors behind the \<^verbatim>\<open>std::insert_iterator\<close>.
  Any further state of the program is the extension part of the record.
\<close>

record 'a memory =
  inputToGetSubsets :: "'a list"
  result :: "'a list list"

text \<open>
  A random access iterator into \<^verbatim>\<open>inputToGetSubsets\<close> is its index; \<^verbatim>\<open>cbegin()\<close> is 0 and
  \<^verbatim>\<open>cend()\<close> is the length. \<^verbatim>\<open>std::distance\<close> of two random access iterators is their signed
  difference (\<^verbatim>\<open>Difftype\<close>).
\<close>

definition distance :: "nat \<Rightarrow> nat \<Rightarrow> int" where
  "distance i j = int j - int i"

text \<open>
  Copying the range \<^verbatim>\<open>[remainderSequenceBegin, remainderSequenceBegin + 1)\<close> dereferences
  \<^verbatim>\<open>remainderSequenceBegin\<close>. Past the end of the vector that is undefined behaviour in C++;
  the model returns this error instead.
\<close>

datatype error = OutOfRange

text \<open>
  \<^verbatim>\<open>destination = value\<close> on a \<^verbatim>\<open>std::insert_iterator\<close> is
  \<^verbatim>\<open>iter = container->insert(iter, value); ++iter;\<close>. The iterator object is its position
  \<^verbatim>\<open>iter\<close> in \<^verbatim>\<open>result\<close>; the pair returned is the memory and the advanced iterator.
  \<^verbatim>\<open>++destination\<close> does nothing on an insert iterator. The position of a valid iterator
  is at most the length of \<^verbatim>\<open>result\<close>; inserting through any other is undefined behaviour
  in C++, and the theorems below are about valid insert iterators only.
\<close>

definition insert_iterator_assign ::
  "('a, 'z) memory_scheme \<Rightarrow> nat \<Rightarrow> 'a list \<Rightarrow> ('a, 'z) memory_scheme \<times> nat" where
  "insert_iterator_assign m destination v =
     (m\<lparr>result := take destination (result m) @ v # drop destination (result m)\<rparr>,
      destination + 1)"

subsection \<open>subsetsCore and subsets\<close>

text \<open>
  \<^verbatim>\<open>subsetsCore(destination, remainderSequenceBegin, remainderSequenceEnd,
  inputSequenceBegin, inputSequenceEnd)\<close>. The range
  \<^verbatim>\<open>[inputSequenceBegin, inputSequenceEnd)\<close> always spans a whole local vector
  (\<^verbatim>\<open>emptySequence\<close> or \<^verbatim>\<open>input\<close>) and is only copied, so it is passed as the list
  \<open>inputSequence\<close> of its elements. \<^verbatim>\<open>destination\<close> is passed by reference: the advanced
  iterator is returned with the memory. The source tests the distance only against 0, so
  a range whose begin lies behind its end is walked on until the end of the vector, where
  the read is out of range.
\<close>

function subsetsCore ::
  "('a, 'z) memory_scheme \<Rightarrow> nat \<Rightarrow> nat \<Rightarrow> nat \<Rightarrow> 'a list
     \<Rightarrow> error + (('a, 'z) memory_scheme \<times> nat)" where
  "subsetsCore m destination remainderSequenceBegin remainderSequenceEnd inputSequence =
     (if 0 = distance remainderSequenceBegin remainderSequenceEnd
      then Inr (insert_iterator_assign m destination inputSequence)
      else if remainderSequenceBegin < length (inputToGetSubsets m)
      then (let input = inputSequence @ [inputToGetSubsets m ! remainderSequenceBegin] in
            case subsetsCore m destination (remainderSequenceBegin + 1) remainderSequenceEnd
                   input of
              Inl err \<Rightarrow> Inl err
            | Inr (m', destination') \<Rightarrow>
                subsetsCore m' destination' (remainderSequenceBegin + 1) remainderSequenceEnd
                  inputSequence)
      else Inl OutOfRange)"
  by pat_completeness auto

termination subsetsCore
proof (relation "measure (\<lambda>(m, d, b, e, acc). length (inputToGetSubsets m) - b)")
  show "wf (measure (\<lambda>(m, d, b, e, acc). length (inputToGetSubsets m) - b))"
    by simp
next
  fix m :: "('a, 'z) memory_scheme" and d b e :: nat and acc input :: "'a list"
  assume "b < length (inputToGetSubsets m)"
  then show "((m, d, b + 1, e, input), (m, d, b, e, acc))
      \<in> measure (\<lambda>(m, d, b, e, acc). length (inputToGetSubsets m) - b)"
    by simp
next
  fix m m' :: "('a, 'z) memory_scheme" and d b e d' :: nat and acc input :: "'a list"
    and r :: "('a, 'z) memory_scheme \<times> nat"
  assume lt: "b < length (inputToGetSubsets m)"
    and call: "subsetsCore m d (b + 1) e input = Inr r"
    and r: "(m', d') = r"
    and dom: "subsetsCore_dom (m, d, b + 1, e, input)"
  \<comment> \<open>a call that returns leaves the input vector as it was\<close>
  have keeps: "inputToGetSubsets m2 = inputToGetSubsets m1"
    if "subsetsCore_dom (m1, d1, b1, e1, acc1)" and "subsetsCore m1 d1 b1 e1 acc1 = Inr (m2, d2)"
    for m1 m2 :: "('a, 'z) memory_scheme" and d1 b1 e1 d2 acc1
    using that
  proof (induction m1 d1 b1 e1 acc1 arbitrary: m2 d2 rule: subsetsCore.pinduct)
    case (1 m d b e acc)
    show ?case
    proof (cases "0 = distance b e")
      case True
      with "1.prems" "1.hyps" show ?thesis
        by (auto simp: subsetsCore.psimps insert_iterator_assign_def)
    next
      case False
      note ne = this
      show ?thesis
      proof (cases "b < length (inputToGetSubsets m)")
        case False
        with ne "1.prems" "1.hyps" show ?thesis
          by (simp add: subsetsCore.psimps)
      next
        case True
        let ?input = "acc @ [inputToGetSubsets m ! b]"
        from ne True "1.prems" "1.hyps"
        obtain m3 d3 where
          first: "subsetsCore m d (b + 1) e ?input = Inr (m3, d3)" and
          second: "subsetsCore m3 d3 (b + 1) e acc = Inr (m2, d2)"
          by (auto simp: subsetsCore.psimps Let_def split: sum.splits)
        from "1.IH"(1) [OF ne True refl first]
        have a: "inputToGetSubsets m3 = inputToGetSubsets m" .
        from "1.IH"(2) [OF ne True refl first refl second]
        have "inputToGetSubsets m2 = inputToGetSubsets m3" .
        with a show ?thesis by simp
      qed
    qed
  qed
  from call r have "subsetsCore m d (b + 1) e input = Inr (m', d')" by simp
  from keeps [OF dom this] lt
  show "((m', d', b + 1, e, acc), (m, d, b, e, acc))
      \<in> measure (\<lambda>(m, d, b, e, acc). length (inputToGetSubsets m) - b)"
    by simp
qed

text \<open>
  \<^verbatim>\<open>subsets(destination, inputSequenceBegin, inputSequenceEnd)\<close> takes the insert iterator
  by value: the caller sees the memory change, not the advanced copy of the iterator.
\<close>

definition subsets ::
  "('a, 'z) memory_scheme \<Rightarrow> nat \<Rightarrow> nat \<Rightarrow> nat \<Rightarrow> error + ('a, 'z) memory_scheme" where
  "subsets m destination inputSequenceBegin inputSequenceEnd =
     (let emptySequence = [] in
      case subsetsCore m destination inputSequenceBegin inputSequenceEnd emptySequence of
        Inl err \<Rightarrow> Inl err
      | Inr (m', destination') \<Rightarrow> Inr m')"

text \<open>
  The call of \<^verbatim>\<open>_tmain\<close>, with the input vector as a parameter in place of the pushed-back
  0, 1, 2: \<^verbatim>\<open>result\<close> starts empty,
  \<^verbatim>\<open>subsets(std::inserter(result, result.begin()), inputToGetSubsets.cbegin(),
  inputToGetSubsets.cend())\<close> fills it, and \<^verbatim>\<open>result\<close> is what the loop then prints.
\<close>

definition tmain :: "'a list \<Rightarrow> error + 'a list list" where
  "tmain xs =
     (case subsets \<lparr>inputToGetSubsets = xs, result = []\<rparr> 0 0 (length xs) of
        Inl err \<Rightarrow> Inl err
      | Inr m' \<Rightarrow> Inr (result m'))"

subsection \<open>The recursion with a bound on its depth\<close>

text \<open>
  \<^verbatim>\<open>subsetsCore\<close> once more, with the number of activations of \<^verbatim>\<open>subsetsCore\<close> that may
  be live at the same time as first argument: the call itself takes one, and each of its
  two recursive calls runs with what is left. \<open>None\<close> means that the bound was reached
  before the call returned.
\<close>

fun subsetsCore_bounded ::
  "nat \<Rightarrow> ('a, 'z) memory_scheme \<Rightarrow> nat \<Rightarrow> nat \<Rightarrow> nat \<Rightarrow> 'a list
     \<Rightarrow> (error + (('a, 'z) memory_scheme \<times> nat)) option" where
  "subsetsCore_bounded 0 m destination remainderSequenceBegin remainderSequenceEnd
     inputSequence = None"
| "subsetsCore_bounded (Suc frames) m destination remainderSequenceBegin remainderSequenceEnd
     inputSequence =
     (if 0 = distance remainderSequenceBegin remainderSequenceEnd
      then Some (Inr (insert_iterator_assign m destination inputSequence))
      else if remainderSequenceBegin < length (inputToGetSubsets m)
      then (let input = inputSequence @ [inputToGetSubsets m ! remainderSequenceBegin] in
            case subsetsCore_bounded frames m destination (remainderSequenceBegin + 1)
                   remainderSequenceEnd input of
              None \<Rightarrow> None
            | Some (Inl err) \<Rightarrow> Some (Inl err)
            | Some (Inr (m', destination')) \<Rightarrow>
                subsetsCore_bounded frames m' destination' (remainderSequenceBegin + 1)
                  remainderSequenceEnd inputSequence)
      else Some (Inl OutOfRange))"

subsection \<open>The enumeration as the specification words it\<close>

text \<open>
  Section 4.1 of the specification: the recursion over a remainder and an accumulated
  sequence. An empty remainder emits the accumulated sequence; otherwise, with \<open>h\<close> the
  first element of the remainder and \<open>rest\<close> the others, everything of the branch that
  appends \<open>h\<close> to the accumulated sequence comes first, then everything of the branch that
  leaves it unchanged. The entry point starts with the whole input and nothing accumulated.
\<close>

fun spec_generate :: "'a list \<Rightarrow> 'a list \<Rightarrow> 'a list list" where
  "spec_generate [] accumulated = [accumulated]"
| "spec_generate (h # rest) accumulated =
     spec_generate rest (accumulated @ [h]) @ spec_generate rest accumulated"

definition spec_generatePowerset :: "'a list \<Rightarrow> 'a list list" where
  "spec_generatePowerset input = spec_generate input []"

section \<open>What a call writes\<close>

declare subsetsCore.simps [simp del]

lemma insert_block:
  assumes "d \<le> length r"
  shows "take (d + length A) (take d r @ A @ drop d r) @ B
           @ drop (d + length A) (take d r @ A @ drop d r)
         = take d r @ (A @ B) @ drop d r"
  using assms by (simp add: min_def)

lemma range_head:
  assumes "b < e" and "e \<le> length xs"
  shows "take (e - b) (drop b xs) = xs ! b # take (e - (b + 1)) (drop (b + 1) xs)"
proof -
  from assms have "e - b = Suc (e - (b + 1))" and "b < length xs" by simp_all
  then show ?thesis by (simp add: Cons_nth_drop_Suc [symmetric])
qed

text \<open>
  On a valid range \<^verbatim>\<open>[b, e)\<close> of the input vector, with a valid insert position, the call
  returns, and what it has inserted at the insert position is every subsequence of the
  range, each behind the accumulated sequence, the ones with the head of the range first.
\<close>

lemma subsetsCore_emits:
  assumes "e - b = n" and "b \<le> e" and "e \<le> length (inputToGetSubsets m)"
    and "d \<le> length (result m)"
  shows "subsetsCore m d b e acc =
     Inr (m\<lparr>result := take d (result m)
                 @ map ((@) acc) (subseqs (take (e - b) (drop b (inputToGetSubsets m))))
                 @ drop d (result m)\<rparr>,
          d + 2 ^ (e - b))"
  using assms
proof (induction n arbitrary: m d b acc)
  case 0
  then have "b = e" by simp
  then show ?case
    by (simp add: subsetsCore.simps [of m d e e acc] distance_def insert_iterator_assign_def)
next
  case (Suc n)
  let ?xs = "inputToGetSubsets m"
  let ?k = "e - (b + 1)"
  from Suc.prems have lt: "b < e" and bl: "b < length ?xs" by auto
  from lt have ne: "0 \<noteq> distance b e" by (simp add: distance_def)
  let ?incl = "map ((@) (acc @ [?xs ! b])) (subseqs (take ?k (drop (b + 1) ?xs)))"
  let ?excl = "map ((@) acc) (subseqs (take ?k (drop (b + 1) ?xs)))"
  let ?m1 = "m\<lparr>result := take d (result m) @ ?incl @ drop d (result m)\<rparr>"
  from Suc.prems have n: "?k = n" by simp
  have first: "subsetsCore m d (b + 1) e (acc @ [?xs ! b]) = Inr (?m1, d + 2 ^ ?k)"
    using Suc.IH [OF n, of m d] Suc.prems lt by simp
  have len: "length ?incl = 2 ^ ?k"
    using Suc.prems(3) lt by (auto simp: length_subseqs min_def)
  have second: "subsetsCore ?m1 (d + 2 ^ ?k) (b + 1) e acc =
      Inr (?m1\<lparr>result := take (d + 2 ^ ?k) (result ?m1) @ ?excl
                  @ drop (d + 2 ^ ?k) (result ?m1)\<rparr>,
           d + 2 ^ ?k + 2 ^ ?k)"
    using Suc.IH [OF n, of ?m1 "d + 2 ^ ?k" acc] Suc.prems lt len by simp
  have blk: "take (d + 2 ^ ?k) (result ?m1) @ ?excl @ drop (d + 2 ^ ?k) (result ?m1)
       = take d (result m) @ (?incl @ ?excl) @ drop d (result m)"
    using insert_block [of d "result m" ?incl ?excl] Suc.prems(4) len by simp
  have pw: "(2::nat) ^ (e - b) = 2 ^ ?k + 2 ^ ?k"
  proof -
    from lt have "e - b = Suc ?k" by simp
    then show ?thesis by simp
  qed
  show ?case
    apply (subst subsetsCore.simps)
    apply (simp only: ne bl if_False if_True Let_def first sum.case prod.case second blk
        range_head [OF lt Suc.prems(3)] pw)
    apply (simp add: Let_def)
    done
qed

lemma subsets_emits:
  assumes "d \<le> length (result m)"
  shows "subsets m d 0 (length (inputToGetSubsets m)) =
     Inr (m\<lparr>result := take d (result m) @ subseqs (inputToGetSubsets m) @ drop d (result m)\<rparr>)"
proof -
  have "map ((@) []) (subseqs (inputToGetSubsets m)) = subseqs (inputToGetSubsets m)"
    by (simp add: map_idI)
  with subsetsCore_emits [OF refl _ _ assms, of 0 "length (inputToGetSubsets m)" "[]"]
  show ?thesis
    by (simp add: subsets_def)
qed

lemma tmain_subseqs: "tmain xs = Inr (subseqs xs)"
  using subsets_emits [of 0 "\<lparr>inputToGetSubsets = xs, result = []\<rparr>"]
  by (simp add: tmain_def)

text \<open>
  Whatever the range, a call that returns has only inserted a block of entries at the
  insert position, and has advanced the iterator by the length of the block.
\<close>

lemma subsetsCore_frame:
  "subsetsCore m d b e acc = Inr (m', d') \<Longrightarrow> d \<le> length (result m) \<Longrightarrow>
   \<exists>rs. m' = m\<lparr>result := take d (result m) @ rs @ drop d (result m)\<rparr> \<and> d' = d + length rs"
proof (induction m d b e acc arbitrary: m' d' rule: subsetsCore.induct)
  case (1 m d b e acc)
  show ?case
  proof (cases "0 = distance b e")
    case True
    with "1.prems" have "m' = m\<lparr>result := take d (result m) @ [acc] @ drop d (result m)\<rparr>
        \<and> d' = d + length [acc]"
      by (auto simp: subsetsCore.simps [of m d b e acc] insert_iterator_assign_def)
    then show ?thesis by blast
  next
    case False
    note ne = this
    show ?thesis
    proof (cases "b < length (inputToGetSubsets m)")
      case False
      with ne "1.prems" show ?thesis
        by (simp add: subsetsCore.simps [of m d b e acc])
    next
      case True
      let ?input = "acc @ [inputToGetSubsets m ! b]"
      from ne True "1.prems"
      obtain m1 d1 where
        first: "subsetsCore m d (b + 1) e ?input = Inr (m1, d1)" and
        second: "subsetsCore m1 d1 (b + 1) e acc = Inr (m', d')"
        by (auto simp: subsetsCore.simps [of m d b e acc] Let_def split: sum.splits)
      from "1.IH"(1) [OF ne True refl first "1.prems"(2)]
      obtain A where m1: "m1 = m\<lparr>result := take d (result m) @ A @ drop d (result m)\<rparr>"
        and d1: "d1 = d + length A" by blast
      from m1 d1 "1.prems"(2) have "d1 \<le> length (result m1)" by simp
      from "1.IH"(2) [OF ne True refl first refl second this]
      obtain B where m': "m' = m1\<lparr>result := take d1 (result m1) @ B @ drop d1 (result m1)\<rparr>"
        and d': "d' = d1 + length B" by blast
      from m' m1 d1 insert_block [OF "1.prems"(2), of A B]
      have "m' = m\<lparr>result := take d (result m) @ (A @ B) @ drop d (result m)\<rparr>"
        by simp
      moreover from d' d1 have "d' = d + length (A @ B)" by simp
      ultimately show ?thesis by blast
    qed
  qed
qed

text \<open>
  With a bound on the depth, a call on a valid range of \<open>e - b\<close> elements returns what
  \<^verbatim>\<open>subsetsCore\<close> returns when the bound is above \<open>e - b\<close>, and runs into the bound otherwise.
\<close>

lemma subsetsCore_bounded_eq:
  assumes "b \<le> e" and "e \<le> length (inputToGetSubsets m)" and "d \<le> length (result m)"
  shows "subsetsCore_bounded frames m d b e acc =
    (if e - b < frames then Some (subsetsCore m d b e acc) else None)"
  using assms
proof (induction frames arbitrary: m d b acc)
  case 0
  show ?case by simp
next
  case (Suc frames)
  show ?case
  proof (cases "b = e")
    case True
    then show ?thesis
      by (simp add: subsetsCore.simps [of m d e e acc] distance_def)
  next
    case False
    with Suc.prems have lt: "b < e" and bl: "b < length (inputToGetSubsets m)" by auto
    from lt have ne: "0 \<noteq> distance b e" by (simp add: distance_def)
    let ?input = "acc @ [inputToGetSubsets m ! b]"
    from lt Suc.prems have b1: "b + 1 \<le> e" by simp
    define A where "A = map ((@) ?input)
      (subseqs (take (e - (b + 1)) (drop (b + 1) (inputToGetSubsets m))))"
    define m1 where "m1 = m\<lparr>result := take d (result m) @ A @ drop d (result m)\<rparr>"
    define d1 where "d1 = d + 2 ^ (e - (b + 1))"
    have first: "subsetsCore m d (b + 1) e ?input = Inr (m1, d1)"
      using subsetsCore_emits [OF refl b1 Suc.prems(2,3), of ?input]
      by (simp add: A_def m1_def d1_def)
    have "length A = 2 ^ (e - (b + 1))"
      using Suc.prems(2) b1 by (auto simp: A_def length_subseqs min_def)
    with Suc.prems(3)
    have m1: "inputToGetSubsets m1 = inputToGetSubsets m" "d1 \<le> length (result m1)"
      by (simp_all add: m1_def d1_def)
    have bfirst: "subsetsCore_bounded frames m d (b + 1) e ?input =
        (if e - (b + 1) < frames then Some (Inr (m1, d1)) else None)"
      using Suc.IH [OF b1 Suc.prems(2,3), of ?input] first by simp
    have bsecond: "subsetsCore_bounded frames m1 d1 (b + 1) e acc =
        (if e - (b + 1) < frames then Some (subsetsCore m1 d1 (b + 1) e acc) else None)"
      using Suc.IH [of "b + 1" m1 d1 acc] b1 Suc.prems(2) m1 by simp
    have "e - b < Suc frames \<longleftrightarrow> e - (b + 1) < frames" using lt by auto
    then show ?thesis
      using ne bl first bfirst bsecond
      by (simp add: subsetsCore.simps [of m d b e acc] Let_def)
  qed
qed

subsection \<open>Facts on the enumeration of subsequences\<close>

lemma subseqs_map: "subseqs (map f xs) = map (map f) (subseqs xs)"
  by (induction xs) (simp_all add: Let_def)

lemma subseqs_sorted_wrt:
  "ps \<in> set (subseqs ys) \<Longrightarrow> sorted_wrt R ys \<Longrightarrow> sorted_wrt R ps \<and> set ps \<subseteq> set ys"
  by (induction ys arbitrary: ps) (fastforce simp: Let_def)+

lemma subseqs_length_le: "ys \<in> set (subseqs xs) \<Longrightarrow> length ys \<le> length xs"
  by (induction xs arbitrary: ys) (auto simp: Let_def le_SucI)

lemma count_list_map_Cons:
  "count_list (map ((#) x) yss) [] = 0"
  "count_list (map ((#) x) yss) (y # ys) = (if x = y then count_list yss ys else 0)"
  by (induction yss) auto

lemma count_nil_subseqs: "count_list (subseqs xs) [] = 1"
  by (induction xs) (simp_all add: Let_def count_list_map_Cons)

lemma count_whole_subseqs: "count_list (subseqs xs) xs = 1"
proof (induction xs)
  case Nil
  show ?case by simp
next
  case (Cons x xs)
  have "x # xs \<notin> set (subseqs xs)"
    using subseqs_length_le [of "x # xs" xs] by auto
  then have "count_list (subseqs xs) (x # xs) = 0" by (simp add: count_list_0_iff)
  with Cons show ?case by (simp add: Let_def count_list_map_Cons)
qed

lemma count_singleton_subseqs: "count_list (subseqs xs) [v] = count_list xs v"
  by (induction xs) (simp_all add: Let_def count_list_map_Cons count_nil_subseqs)

lemma spec_generate_subseqs: "spec_generate remainder acc = map ((@) acc) (subseqs remainder)"
  by (induction remainder arbitrary: acc) (simp_all add: Let_def comp_def)

text \<open>
  The subsequences of the sequence of positions \<open>0, \<dots>, n - 1\<close> are the strictly
  increasing lists of positions below \<open>n\<close>, each once; the subsequences of \<open>xs\<close> are these,
  read through \<open>xs\<close>, in the same order.
\<close>

lemma subseqs_upt_set:
  "set (subseqs [0..<n]) = {ps. sorted_wrt (<) ps \<and> set ps \<subseteq> {..<n}}"
proof (intro equalityI subsetI)
  fix ps assume "ps \<in> set (subseqs [0..<n])"
  from subseqs_sorted_wrt [OF this sorted_wrt_upt]
  show "ps \<in> {ps. sorted_wrt (<) ps \<and> set ps \<subseteq> {..<n}}" by auto
next
  fix ps assume "ps \<in> {ps. sorted_wrt (<) ps \<and> set ps \<subseteq> {..<n}}"
  then have ps: "sorted_wrt (<) ps" "set ps \<subseteq> set [0..<n]" by auto
  then have "set ps \<in> set ` set (subseqs [0..<n])"
    by (simp only: subseqs_powset Pow_iff)
  then obtain qs where qs: "qs \<in> set (subseqs [0..<n])" and eq: "set qs = set ps" by auto
  from subseqs_sorted_wrt [OF qs sorted_wrt_upt] have "sorted_wrt (<) qs" by simp
  with ps(1) eq have "qs = ps" by (simp add: strict_sorted_equal)
  with qs show "ps \<in> set (subseqs [0..<n])" by simp
qed

lemma distinct_subseqs_upt: "distinct (subseqs [0..<n])"
  using distinct_set_subseqs [of "[0..<n]"] by (simp add: distinct_map)

lemma subseqs_by_positions: "subseqs xs = map (map ((!) xs)) (subseqs [0..<length xs])"
proof -
  have "subseqs (map ((!) xs) [0..<length xs]) = map (map ((!) xs)) (subseqs [0..<length xs])"
    by (rule subseqs_map)
  then show ?thesis by (simp only: map_nth)
qed

lemma count_subseqs_positions:
  "count_list (subseqs xs) v =
     card {ps. sorted_wrt (<) ps \<and> set ps \<subseteq> {..<length xs} \<and> map ((!) xs) ps = v}"
proof -
  let ?pss = "subseqs [0..<length xs]"
  have "count_list (map (map ((!) xs)) ?pss) v =
      length (filter (\<lambda>ps. v = map ((!) xs) ps) ?pss)"
    by (simp add: count_list_eq_length_filter filter_map comp_def)
  then have "count_list (subseqs xs) v = length (filter (\<lambda>ps. v = map ((!) xs) ps) ?pss)"
    by (simp only: subseqs_by_positions [symmetric])
  also have "\<dots> = card ({ps. v = map ((!) xs) ps} \<inter> set ?pss)"
    by (simp add: distinct_length_filter distinct_subseqs_upt)
  also have "{ps. v = map ((!) xs) ps} \<inter> set ?pss =
      {ps. sorted_wrt (<) ps \<and> set ps \<subseteq> {..<length xs} \<and> map ((!) xs) ps = v}"
    by (auto simp: subseqs_upt_set)
  finally show ?thesis .
qed

section \<open>The claims\<close>

text \<open>
  C1. For every input sequence of length N (N = 0 included), a call of \<^verbatim>\<open>subsets\<close> on the
  whole sequence, through a valid insert iterator, returns and has written exactly
  \<open>2 ^ N\<close> subsequences into the destination: the destination is what it was, with a
  block of \<open>2 ^ N\<close> entries inserted at the insert position.
\<close>

theorem subsets_writes_two_power:
  assumes "destination \<le> length (result m)"
  shows "\<exists>rs. length rs = 2 ^ length (inputToGetSubsets m) \<and>
     subsets m destination 0 (length (inputToGetSubsets m)) =
       Inr (m\<lparr>result := take destination (result m) @ rs @ drop destination (result m)\<rparr>)"
  using subsets_emits [OF assms] by (metis length_subseqs)

theorem subsets_writes_two_power_witness:
  "(1::nat) \<le> length (result \<lparr>inputToGetSubsets = [0::int, 1, 2], result = [[7], [8]]\<rparr>) \<and>
   (\<exists>rs. length rs = 8 \<and>
      subsets \<lparr>inputToGetSubsets = [0::int, 1, 2], result = [[7], [8]]\<rparr> 1 0 3 =
        Inr \<lparr>inputToGetSubsets = [0, 1, 2], result = [7] # rs @ [[8]]\<rparr>)"
  using subsets_writes_two_power
    [of 1 "\<lparr>inputToGetSubsets = [0::int, 1, 2], result = [[7], [8]]\<rparr>"]
  by (simp add: numeral_3_eq_3)

text \<open>
  C2. Results are emitted in the include-before-exclude order of the specification's
  recursion. At every recursive step, that is for every call of \<^verbatim>\<open>subsetsCore\<close> on a valid
  range with any accumulated sequence, the block inserted is the specification's
  enumeration of the range from that accumulated sequence, in which everything with the
  head of the remainder precedes everything without it. For \<^verbatim>\<open>_tmain\<close>'s call the result is
  the specification's enumeration of the input; the result for \<open>x # xs\<close> is the result for
  \<open>xs\<close> with \<open>x\<close> in front of each entry, followed by the result for \<open>xs\<close>; input \<open>[0]\<close>
  yields \<open>[0], []\<close> and input \<open>[0, 1, 2]\<close> yields
  \<open>[0,1,2], [0,1], [0,2], [0], [1,2], [1], [2], []\<close>.
\<close>

theorem subsetsCore_include_before_exclude:
  "(b \<le> e \<and> e \<le> length (inputToGetSubsets m) \<and> d \<le> length (result m) \<longrightarrow>
      subsetsCore m d b e acc =
        Inr (m\<lparr>result := take d (result m)
                    @ spec_generate (take (e - b) (drop b (inputToGetSubsets m))) acc
                    @ drop d (result m)\<rparr>,
             d + 2 ^ (e - b))) \<and>
   tmain xs = Inr (spec_generatePowerset xs) \<and>
   (\<exists>rs. tmain xs = Inr rs \<and> tmain (x # xs) = Inr (map ((#) x) rs @ rs)) \<and>
   tmain [0::int] = Inr [[0], []] \<and>
   tmain [0::int, 1, 2] = Inr [[0, 1, 2], [0, 1], [0, 2], [0], [1, 2], [1], [2], []]"
proof -
  have "subsetsCore m d b e acc =
        Inr (m\<lparr>result := take d (result m)
                    @ spec_generate (take (e - b) (drop b (inputToGetSubsets m))) acc
                    @ drop d (result m)\<rparr>,
             d + 2 ^ (e - b))"
    if "b \<le> e" "e \<le> length (inputToGetSubsets m)" "d \<le> length (result m)"
    using subsetsCore_emits [OF refl that] by (simp add: spec_generate_subseqs)
  moreover have "tmain xs = Inr (spec_generatePowerset xs)"
    by (simp add: tmain_subseqs spec_generatePowerset_def spec_generate_subseqs map_idI)
  moreover have "\<exists>rs. tmain xs = Inr rs \<and> tmain (x # xs) = Inr (map ((#) x) rs @ rs)"
    by (simp add: tmain_subseqs Let_def)
  moreover have "tmain [0::int] = Inr [[0], []]"
    by (simp add: tmain_subseqs)
  moreover have "tmain [0::int, 1, 2] = Inr [[0, 1, 2], [0, 1], [0, 2], [0], [1, 2], [1], [2], []]"
    by (simp add: tmain_subseqs)
  ultimately show ?thesis by blast
qed

theorem subsetsCore_include_before_exclude_witness:
  "(1::nat) \<le> 3 \<and> 3 \<le> length (inputToGetSubsets \<lparr>inputToGetSubsets = [0::int, 1, 2], result = []\<rparr>) \<and>
   (0::nat) \<le> length (result \<lparr>inputToGetSubsets = [0::int, 1, 2], result = []\<rparr>) \<and>
   subsetsCore \<lparr>inputToGetSubsets = [0::int, 1, 2], result = []\<rparr> 0 1 3 [0] =
     Inr (\<lparr>inputToGetSubsets = [0, 1, 2], result = [[0, 1, 2], [0, 1], [0, 2], [0]]\<rparr>, 4)"
  using subsetsCore_include_before_exclude
    [of 1 3 "\<lparr>inputToGetSubsets = [0::int, 1, 2], result = []\<rparr>" 0 "[0]" "[]::int list" 0]
  by (simp add: numeral_3_eq_3)

text \<open>
  C3. Every emitted result is the input read at a strictly increasing list of positions of
  the input: no position occurs twice in the list, and the elements stand in the order
  they have in the input.
\<close>

theorem tmain_increasing_positions:
  "\<exists>rs. tmain xs = Inr rs \<and>
     (\<forall>r \<in> set rs. \<exists>ps. sorted_wrt (<) ps \<and> distinct ps \<and> set ps \<subseteq> {..<length xs} \<and>
        r = map ((!) xs) ps)"
proof -
  have "\<exists>ps. sorted_wrt (<) ps \<and> distinct ps \<and> set ps \<subseteq> {..<length xs} \<and> r = map ((!) xs) ps"
    if "r \<in> set (subseqs xs)" for r
  proof -
    from that subseqs_by_positions [of xs] obtain ps where ps: "ps \<in> set (subseqs [0..<length xs])" and r: "r = map ((!) xs) ps"
      by auto
    from subseqs_sorted_wrt [OF ps sorted_wrt_upt]
    have "sorted_wrt (<) ps" and "set ps \<subseteq> {..<length xs}" by auto
    moreover from \<open>sorted_wrt (<) ps\<close> have "distinct ps"
      by (simp add: strict_sorted_iff)
    ultimately show ?thesis using r by blast
  qed
  then show ?thesis by (simp add: tmain_subseqs)
qed

theorem tmain_increasing_positions_witness:
  "tmain [5::int, 6, 7] = Inr [[5, 6, 7], [5, 6], [5, 7], [5], [6, 7], [6], [7], []] \<and>
   [5, 7] \<in> set [[5::int, 6, 7], [5, 6], [5, 7], [5], [6, 7], [6], [7], []] \<and>
   (\<exists>ps. sorted_wrt (<) ps \<and> distinct ps \<and> set ps \<subseteq> {..<length [5::int, 6, 7]} \<and>
      [5, 7] = map ((!) [5::int, 6, 7]) ps)"
  using tmain_increasing_positions [of "[5::int, 6, 7]"]
  by (simp add: tmain_subseqs)

text \<open>
  C4. For every input, the empty subsequence occurs exactly once among the emitted results,
  and the full input sequence occurs exactly once.
\<close>

theorem tmain_empty_and_full_once:
  "\<exists>rs. tmain xs = Inr rs \<and> count_list rs [] = 1 \<and> count_list rs xs = 1"
  by (simp add: tmain_subseqs count_nil_subseqs count_whole_subseqs)

text \<open>
  C5. Results are not deduplicated by value. Input \<open>[5, 5]\<close> yields the four results
  \<open>[5,5], [5], [5], []\<close>, which are the position lists \<open>[0,1], [0], [1], []\<close> read through
  the input: the first \<open>[5]\<close> keeps position 0, the second position 1. For every input, the
  number of results is \<open>2 ^ N\<close>, a one-element result \<open>[v]\<close> is emitted once for each
  position that holds \<open>v\<close>, and any value \<open>r\<close> is emitted once for each strictly increasing
  list of positions at which the input reads \<open>r\<close>.
\<close>

theorem tmain_no_deduplication:
  "tmain [5::int, 5] = Inr [[5, 5], [5], [5], []] \<and>
   tmain [5::int, 5] = Inr (map (map ((!) [5::int, 5])) [[0, 1], [0], [1], []]) \<and>
   (\<exists>rs. tmain xs = Inr rs \<and> length rs = 2 ^ length xs \<and>
      (\<forall>v. count_list rs [v] = count_list xs v) \<and>
      (\<forall>r. count_list rs r =
         card {ps. sorted_wrt (<) ps \<and> set ps \<subseteq> {..<length xs} \<and> map ((!) xs) ps = r}))"
proof -
  have "tmain [5::int, 5] = Inr [[5, 5], [5], [5], []]"
    by (simp add: tmain_subseqs)
  moreover have "tmain [5::int, 5] = Inr (map (map ((!) [5::int, 5])) [[0, 1], [0], [1], []])"
    by (simp add: tmain_subseqs)
  moreover have "\<forall>r. count_list (subseqs xs) r =
         card {ps. sorted_wrt (<) ps \<and> set ps \<subseteq> {..<length xs} \<and> map ((!) xs) ps = r}"
    using count_subseqs_positions by blast
  ultimately show ?thesis
    by (simp add: tmain_subseqs length_subseqs count_singleton_subseqs)
qed

text \<open>
  C6. The empty input is valid: the call returns without error and yields exactly one
  result, the empty subsequence; \<^verbatim>\<open>_tmain\<close>'s call on it leaves \<open>[[]]\<close> in \<^verbatim>\<open>result\<close>, and
  through any valid insert iterator the single entry \<open>[]\<close> is inserted.
\<close>

theorem subsets_empty_input:
  "tmain ([] :: 'a list) = Inr [[]] \<and>
   (inputToGetSubsets m = [] \<and> destination \<le> length (result m) \<longrightarrow>
      subsets m destination 0 (length (inputToGetSubsets m)) =
        Inr (m\<lparr>result := take destination (result m) @ [] # drop destination (result m)\<rparr>))"
proof -
  have "subsets m destination 0 (length (inputToGetSubsets m)) =
        Inr (m\<lparr>result := take destination (result m) @ [] # drop destination (result m)\<rparr>)"
    if "inputToGetSubsets m = []" "destination \<le> length (result m)"
    using subsets_emits [OF that(2)] that(1) by simp
  then show ?thesis by (simp add: tmain_subseqs)
qed

theorem subsets_empty_input_witness:
  "inputToGetSubsets \<lparr>inputToGetSubsets = ([] :: int list), result = [[7], [8]]\<rparr> = [] \<and>
   (1::nat) \<le> length (result \<lparr>inputToGetSubsets = ([] :: int list), result = [[7], [8]]\<rparr>) \<and>
   subsets \<lparr>inputToGetSubsets = ([] :: int list), result = [[7], [8]]\<rparr> 1 0 0 =
     Inr \<lparr>inputToGetSubsets = [], result = [[7], [], [8]]\<rparr>"
  using subsets_empty_input [where 'a = int,
      of "\<lparr>inputToGetSubsets = ([] :: int list), result = [[7], [8]]\<rparr>" 1]
  by simp

text \<open>
  C7. The generator is deterministic: a call on the whole input inserts one and the same
  block \<open>rs\<close>, the result of \<^verbatim>\<open>_tmain\<close>'s call, whatever the destination holds and
  wherever the insert iterator stands. A second call on the memory the first call left
  inserts the same subsequences in the same order again, and so does a call on any other
  memory with the same input sequence.
\<close>

theorem subsets_deterministic:
  assumes "d1 \<le> length (result m)"
    and "d2 \<le> length (result m) + 2 ^ length (inputToGetSubsets m)"
    and "inputToGetSubsets m2 = inputToGetSubsets m" and "d3 \<le> length (result m2)"
  shows "\<exists>rs m'.
     tmain (inputToGetSubsets m) = Inr rs \<and>
     subsets m d1 0 (length (inputToGetSubsets m)) = Inr m' \<and>
     m' = m\<lparr>result := take d1 (result m) @ rs @ drop d1 (result m)\<rparr> \<and>
     subsets m' d2 0 (length (inputToGetSubsets m')) =
       Inr (m'\<lparr>result := take d2 (result m') @ rs @ drop d2 (result m')\<rparr>) \<and>
     subsets m2 d3 0 (length (inputToGetSubsets m2)) =
       Inr (m2\<lparr>result := take d3 (result m2) @ rs @ drop d3 (result m2)\<rparr>)"
proof -
  let ?rs = "subseqs (inputToGetSubsets m)"
  let ?m' = "m\<lparr>result := take d1 (result m) @ ?rs @ drop d1 (result m)\<rparr>"
  have a: "subsets m d1 0 (length (inputToGetSubsets m)) = Inr ?m'"
    by (rule subsets_emits [OF assms(1)])
  have "d2 \<le> length (result ?m')"
    using assms(1,2) by (simp add: length_subseqs)
  from subsets_emits [OF this]
  have b: "subsets ?m' d2 0 (length (inputToGetSubsets ?m')) =
       Inr (?m'\<lparr>result := take d2 (result ?m') @ ?rs @ drop d2 (result ?m')\<rparr>)"
    by simp
  from subsets_emits [OF assms(4)] assms(3)
  have c: "subsets m2 d3 0 (length (inputToGetSubsets m2)) =
       Inr (m2\<lparr>result := take d3 (result m2) @ ?rs @ drop d3 (result m2)\<rparr>)"
    by simp
  from a b c tmain_subseqs [of "inputToGetSubsets m"] show ?thesis by blast
qed

theorem subsets_deterministic_witness:
  "(0::nat) \<le> length (result \<lparr>inputToGetSubsets = [5::int, 6], result = []\<rparr>) \<and>
   (4::nat) \<le> length (result \<lparr>inputToGetSubsets = [5::int, 6], result = []\<rparr>) + 2 ^ length [5::int, 6] \<and>
   inputToGetSubsets \<lparr>inputToGetSubsets = [5::int, 6], result = [[9]]\<rparr> = [5, 6] \<and>
   (1::nat) \<le> length (result \<lparr>inputToGetSubsets = [5::int, 6], result = [[9]]\<rparr>) \<and>
   subsets \<lparr>inputToGetSubsets = [5::int, 6], result = []\<rparr> 0 0 2 =
     Inr \<lparr>inputToGetSubsets = [5, 6], result = [[5, 6], [5], [6], []]\<rparr> \<and>
   subsets \<lparr>inputToGetSubsets = [5::int, 6], result = [[5, 6], [5], [6], []]\<rparr> 4 0 2 =
     Inr \<lparr>inputToGetSubsets = [5, 6],
          result = [[5, 6], [5], [6], [], [5, 6], [5], [6], []]\<rparr> \<and>
   subsets \<lparr>inputToGetSubsets = [5::int, 6], result = [[9]]\<rparr> 1 0 2 =
     Inr \<lparr>inputToGetSubsets = [5, 6], result = [[9], [5, 6], [5], [6], []]\<rparr>"
  using subsets_deterministic [of 0 "\<lparr>inputToGetSubsets = [5::int, 6], result = []\<rparr>" 4
      "\<lparr>inputToGetSubsets = [5::int, 6], result = [[9]]\<rparr>" 1]
  by (simp add: tmain_subseqs numeral_2_eq_2)

text \<open>
  C8. A call of \<^verbatim>\<open>subsets\<close> that returns, on any range, has changed nothing but the
  destination: the memory is the one before the call with a block of entries inserted at
  the insert position of \<^verbatim>\<open>result\<close>. The input sequence is the same, the rest of the
  program's state (the extension of the record) is the same, and the entries before and
  behind the insert position are still there, in their order.
\<close>

theorem subsets_frame:
  assumes "destination \<le> length (result m)"
    and "subsets m destination inputSequenceBegin inputSequenceEnd = Inr m'"
  shows "(\<exists>rs. m' = m\<lparr>result := take destination (result m) @ rs
                         @ drop destination (result m)\<rparr>) \<and>
     inputToGetSubsets m' = inputToGetSubsets m \<and>
     memory.more m' = memory.more m \<and>
     take destination (result m') = take destination (result m) \<and>
     drop (length (result m') - (length (result m) - destination)) (result m')
       = drop destination (result m)"
proof -
  from assms(2) obtain d' where
    "subsetsCore m destination inputSequenceBegin inputSequenceEnd [] = Inr (m', d')"
    by (auto simp: subsets_def split: sum.splits)
  from subsetsCore_frame [OF this assms(1)]
  obtain rs where m': "m' = m\<lparr>result := take destination (result m) @ rs
                         @ drop destination (result m)\<rparr>" by blast
  then have "length (result m') - (length (result m) - destination) = destination + length rs"
    using assms(1) by simp
  with m' assms(1) show ?thesis by auto
qed

theorem subsets_frame_witness:
  "(1::nat) \<le> length (result \<lparr>inputToGetSubsets = [1::int], result = [[7], [8]]\<rparr>) \<and>
   subsets \<lparr>inputToGetSubsets = [1::int], result = [[7], [8]]\<rparr> 1 0 1 =
     Inr \<lparr>inputToGetSubsets = [1], result = [[7], [1], [], [8]]\<rparr> \<and>
   inputToGetSubsets \<lparr>inputToGetSubsets = [1::int], result = [[7], [1], [], [8]]\<rparr> =
     inputToGetSubsets \<lparr>inputToGetSubsets = [1::int], result = [[7], [8]]\<rparr> \<and>
   take 1 (result \<lparr>inputToGetSubsets = [1::int], result = [[7], [1], [], [8]]\<rparr>) = [[7]] \<and>
   drop 3 (result \<lparr>inputToGetSubsets = [1::int], result = [[7], [1], [], [8]]\<rparr>) = [[8]]"
proof -
  have run: "subsets \<lparr>inputToGetSubsets = [1::int], result = [[7], [8]]\<rparr> 1 0 1 =
     Inr \<lparr>inputToGetSubsets = [1], result = [[7], [1], [], [8]]\<rparr>"
    using subsets_emits [of 1 "\<lparr>inputToGetSubsets = [1::int], result = [[7], [8]]\<rparr>"]
    by simp
  from subsets_frame [OF _ run] run show ?thesis
    by simp
qed

text \<open>
  C9. On a valid range of \<open>e - b\<close> elements (for \<^verbatim>\<open>subsets\<close>: the whole input, of length N)
  the computation runs to completion. Each recursive call is on the range without its
  first element, so a call on \<open>e - b\<close> elements never has more than \<open>e - b\<close> recursive
  calls below it: bounded to \<open>frames\<close> live activations, it returns what \<^verbatim>\<open>subsetsCore\<close>
  returns as soon as \<open>frames\<close> exceeds \<open>e - b\<close>, and it needs that many.
\<close>

theorem subsetsCore_terminates:
  assumes "b \<le> e" and "e \<le> length (inputToGetSubsets m)" and "d \<le> length (result m)"
  shows "(\<exists>r. subsetsCore m d b e acc = Inr r) \<and>
     (\<forall>frames. subsetsCore_bounded frames m d b e acc =
        (if e - b < frames then Some (subsetsCore m d b e acc) else None)) \<and>
     (b = 0 \<and> e = length (inputToGetSubsets m) \<longrightarrow> (\<exists>m'. subsets m d b e = Inr m'))"
  using subsetsCore_emits [OF refl assms] subsetsCore_bounded_eq [OF assms]
    subsets_emits [OF assms(3)]
  by simp

theorem subsetsCore_terminates_witness:
  "(0::nat) \<le> 3 \<and> 3 \<le> length (inputToGetSubsets \<lparr>inputToGetSubsets = [0::int, 1, 2], result = []\<rparr>) \<and>
   (0::nat) \<le> length (result \<lparr>inputToGetSubsets = [0::int, 1, 2], result = []\<rparr>) \<and>
   (\<exists>r. subsetsCore \<lparr>inputToGetSubsets = [0::int, 1, 2], result = []\<rparr> 0 0 3 [] = Inr r \<and>
      subsetsCore_bounded 4 \<lparr>inputToGetSubsets = [0::int, 1, 2], result = []\<rparr> 0 0 3 []
        = Some (Inr r)) \<and>
   subsetsCore_bounded 3 \<lparr>inputToGetSubsets = [0::int, 1, 2], result = []\<rparr> 0 0 3 [] = None"
  using subsetsCore_terminates [of 0 3 "\<lparr>inputToGetSubsets = [0::int, 1, 2], result = []\<rparr>" 0 "[]"]
  by (simp add: numeral_3_eq_3)

text \<open>
  C10. \<^verbatim>\<open>_tmain\<close>'s call on the sequence of positions \<open>0, \<dots>, N - 1\<close> yields the position
  lists \<open>pss\<close>; the results on \<open>xs\<close> are these lists read through \<open>xs\<close>, entry by entry.
  Each is strictly increasing, and sending the index \<open>k\<close> of a result to the set of
  positions of the \<open>k\<close>-th list is a bijection from the \<open>2 ^ N\<close> indices onto the powerset
  of \<open>{0, \<dots>, N - 1}\<close>: every set of positions is realised by exactly one emitted result.
\<close>

theorem tmain_positions_bijection:
  "\<exists>pss. tmain [0..<length xs] = Inr pss \<and>
     tmain xs = Inr (map (map ((!) xs)) pss) \<and>
     length pss = 2 ^ length xs \<and>
     (\<forall>ps \<in> set pss. sorted_wrt (<) ps) \<and>
     bij_betw (\<lambda>k. set (pss ! k)) {..<length pss} (Pow {..<length xs})"
proof -
  let ?N = "length xs"
  let ?pss = "subseqs [0..<?N]"
  have "bij_betw ((!) (map set ?pss)) {..<length (map set ?pss)} (set (map set ?pss))"
    by (rule bij_betw_nth [OF distinct_set_subseqs [OF distinct_upt] refl refl])
  moreover have "set (map set ?pss) = Pow {..<?N}"
    using subseqs_powset [of "[0..<?N]"] by (simp add: atLeast_upt)
  ultimately have "bij_betw ((!) (map set ?pss)) {..<length ?pss} (Pow {..<?N})"
    by simp
  moreover have "bij_betw ((!) (map set ?pss)) {..<length ?pss} (Pow {..<?N}) =
      bij_betw (\<lambda>k. set (?pss ! k)) {..<length ?pss} (Pow {..<?N})"
    by (rule bij_betw_cong) simp
  ultimately have bij: "bij_betw (\<lambda>k. set (?pss ! k)) {..<length ?pss} (Pow {..<?N})"
    by simp
  have sorted: "\<forall>ps \<in> set ?pss. sorted_wrt (<) ps"
    using subseqs_sorted_wrt [OF _ sorted_wrt_upt] by blast
  have "tmain xs = Inr (map (map ((!) xs)) ?pss)"
    by (simp only: tmain_subseqs subseqs_by_positions [symmetric])
  with bij sorted show ?thesis
    by (simp add: tmain_subseqs length_subseqs)
qed

theorem tmain_positions_bijection_witness:
  "tmain [0..<length [5::int, 5]] = Inr [[0, 1], [0], [1], []] \<and>
   tmain [5::int, 5] = Inr (map (map ((!) [5::int, 5])) [[0, 1], [0], [1], []]) \<and>
   [0, 1] \<in> set [[0::nat, 1], [0], [1], []] \<and> sorted_wrt (<) [0::nat, 1] \<and>
   bij_betw (\<lambda>k. set ([[0::nat, 1], [0], [1], []] ! k)) {..<length [[0::nat, 1], [0], [1], []]}
     (Pow {..<length [5::int, 5]})"
  using tmain_positions_bijection [of "[5::int, 5]"]
  by (simp add: tmain_subseqs upt_rec)

end
